theory Spec2Isabelle
  imports Main "HOL-Library.Sublist" "HOL-Library.Multiset"
begin

section \<open>Strings of the host language\<close>

text \<open>
  A string is a list of 8-bit characters, so the model is exact for ASCII text. The
  string methods used by the extension
  (\<^verbatim>\<open>includes\<close>, \<^verbatim>\<open>endsWith\<close>, \<^verbatim>\<open>replaceAll\<close>, \<^verbatim>\<open>toLowerCase\<close>, \<^verbatim>\<open>toUpperCase\<close>)
  are modelled after the language standard.
\<close>

definition includes_str :: "string \<Rightarrow> string \<Rightarrow> bool" where
  "includes_str this searchString = sublist searchString this"

definition endsWith :: "string \<Rightarrow> string \<Rightarrow> bool" where
  "endsWith this searchString = suffix searchString this"

definition isUpper :: "char \<Rightarrow> bool" where
  "isUpper c = (let n = (of_char c :: nat) in 65 \<le> n \<and> n \<le> 90)"

definition isLower :: "char \<Rightarrow> bool" where
  "isLower c = (let n = (of_char c :: nat) in 97 \<le> n \<and> n \<le> 122)"

definition isDigit :: "char \<Rightarrow> bool" where
  "isDigit c = (let n = (of_char c :: nat) in 48 \<le> n \<and> n \<le> 57)"

definition toLowerChar :: "char \<Rightarrow> char" where
  "toLowerChar c = (if isUpper c then char_of ((of_char c :: nat) + 32) else c)"

definition toUpperChar :: "char \<Rightarrow> char" where
  "toUpperChar c = (if isLower c then char_of ((of_char c :: nat) - 32) else c)"

definition toLowerCase :: "string \<Rightarrow> string" where
  "toLowerCase s = map toLowerChar s"

definition toUpperCase :: "string \<Rightarrow> string" where
  "toUpperCase s = map toUpperChar s"

subsection \<open>Replacement templates\<close>

text \<open>
  \<^verbatim>\<open>replaceAll\<close> and \<^verbatim>\<open>replace\<close> expand their replacement string for every match:
  \<^verbatim>\<open>$$\<close> stands for a dollar sign, \<^verbatim>\<open>$&\<close> for the matched text, \<^verbatim>\<open>$`\<close> for the text
  before the match and \<^verbatim>\<open>$'\<close> for the text after it. There are no capture groups
  here, so \<^verbatim>\<open>$1\<close> and \<^verbatim>\<open>$<\<close> stay as they are. The arguments \<open>preceding\<close> and \<open>following\<close>
  are the parts of the subject string on either side of the match.
\<close>

fun GetSubstitution :: "string \<Rightarrow> string \<Rightarrow> string \<Rightarrow> string \<Rightarrow> string" where
  "GetSubstitution matched preceding following [] = []"
| "GetSubstitution matched preceding following [c] = [c]"
| "GetSubstitution matched preceding following (c # d # rest) =
     (if c = CHR ''$'' \<and> d = CHR ''$'' then CHR ''$'' # GetSubstitution matched preceding following rest
      else if c = CHR ''$'' \<and> d = CHR 0x60 then preceding @ GetSubstitution matched preceding following rest
      else if c = CHR ''$'' \<and> d = CHR ''&'' then matched @ GetSubstitution matched preceding following rest
      else if c = CHR ''$'' \<and> d = CHR 0x27 then following @ GetSubstitution matched preceding following rest
      else c # GetSubstitution matched preceding following (d # rest))"

subsection \<open>Global replacement of a literal\<close>

text \<open>
  \<open>replaceAll_scan searchValue replaceValue preceding rest\<close> walks the subject string
  \<open>preceding @ rest\<close> from the position \<open>length preceding\<close>: matches are taken from left to
  right and do not overlap, the text between them is kept, and the scan goes on
  behind each match, never inside the text it has just inserted. An empty search
  string matches in front of every character and at the end.
\<close>

function replaceAll_scan :: "string \<Rightarrow> string \<Rightarrow> string \<Rightarrow> string \<Rightarrow> string" where
  "replaceAll_scan searchValue replaceValue preceding [] =
     (if searchValue = [] then GetSubstitution [] preceding [] replaceValue else [])"
| "replaceAll_scan searchValue replaceValue preceding (c # t) =
     (if searchValue = [] then
        GetSubstitution [] preceding (c # t) replaceValue
          @ c # replaceAll_scan searchValue replaceValue (preceding @ [c]) t
      else if prefix searchValue (c # t) then
        GetSubstitution searchValue preceding (drop (length searchValue) (c # t)) replaceValue
          @ replaceAll_scan searchValue replaceValue (preceding @ searchValue)
              (drop (length searchValue) (c # t))
      else c # replaceAll_scan searchValue replaceValue (preceding @ [c]) t)"
  by pat_completeness auto
termination
  by (relation "measure (\<lambda>(s, r, b, t). length t)") auto

definition replaceAll :: "string \<Rightarrow> string \<Rightarrow> string \<Rightarrow> string" where
  "replaceAll this searchValue replaceValue = replaceAll_scan searchValue replaceValue [] this"

section \<open>Case Transformer\<close>

text \<open>
  Modelled from the spec: the functions \<^verbatim>\<open>snakeCase\<close>, \<^verbatim>\<open>pascalCase\<close> and \<^verbatim>\<open>camelCase\<close>
  are imported from the package \<^verbatim>\<open>change-case\<close>, whose code is not part of the sources.
  The spec splits the raw string into words at separators (spaces, hyphens,
  underscores) and at camel humps; snake case joins the lowercased words with an
  underscore, Pascal case capitalises the first letter of each word and concatenates,
  camel case is Pascal case with the leading letter of the first word lowercased.
\<close>

definition isSeparator :: "char \<Rightarrow> bool" where
  "isSeparator c = (c = CHR '' '' \<or> c = CHR ''-'' \<or> c = CHR ''_'')"

fun splitWords :: "string \<Rightarrow> string \<Rightarrow> string list" where
  "splitWords cur [] = (if cur = [] then [] else [cur])"
| "splitWords cur (c # cs) =
     (if isSeparator c then (if cur = [] then [] else [cur]) @ splitWords [] cs
      else if cur \<noteq> [] \<and> isUpper c \<and> (isLower (last cur) \<or> isDigit (last cur))
        then cur # splitWords [c] cs
      else splitWords (cur @ [c]) cs)"

fun capitalize :: "string \<Rightarrow> string" where
  "capitalize [] = []"
| "capitalize (c # w) = toUpperChar c # w"

fun uncapitalize :: "string \<Rightarrow> string" where
  "uncapitalize [] = []"
| "uncapitalize (c # w) = toLowerChar c # w"

fun joinWith :: "string \<Rightarrow> string list \<Rightarrow> string" where
  "joinWith sep [] = []"
| "joinWith sep [w] = w"
| "joinWith sep (w # v # ws) = w @ sep @ joinWith sep (v # ws)"

definition snakeCase :: "string \<Rightarrow> string" where
  "snakeCase raw = joinWith ''_'' (map toLowerCase (splitWords [] raw))"

definition pascalCase :: "string \<Rightarrow> string" where
  "pascalCase raw = concat (map capitalize (splitWords [] raw))"

definition camelCase :: "string \<Rightarrow> string" where
  "camelCase raw =
     (case splitWords [] raw of
        [] \<Rightarrow> []
      | w # ws \<Rightarrow> uncapitalize w @ concat (map capitalize ws))"

section \<open>Text Rewriter\<close>

text \<open>
  \<^verbatim>\<open>String.prototype.replaceName\<close> of \<^verbatim>\<open>utils/tools.ts\<close>. The receiver is the first
  argument. Each test looks for a style label anywhere in the search term.
\<close>

definition replaceName :: "string \<Rightarrow> string \<Rightarrow> string \<Rightarrow> string" where
  "replaceName this searchTerm replaceFor =
     (let targetText = this;
          targetText = (if includes_str searchTerm ''lowerCase''
                        then replaceAll targetText searchTerm (toLowerCase replaceFor)
                        else targetText);
          targetText = (if includes_str searchTerm ''upperCase''
                        then replaceAll targetText searchTerm (toUpperCase replaceFor)
                        else targetText);
          targetText = (if includes_str searchTerm ''snakeCase''
                        then replaceAll targetText searchTerm (snakeCase replaceFor)
                        else targetText);
          targetText = (if includes_str searchTerm ''pascalCase''
                        then replaceAll targetText searchTerm (pascalCase replaceFor)
                        else targetText);
          targetText = (if includes_str searchTerm ''camelCase''
                        then replaceAll targetText searchTerm (camelCase replaceFor)
                        else targetText);
          targetText = replaceAll targetText searchTerm replaceFor
      in targetText)"

text \<open>
  \<^verbatim>\<open>replacePlaceholdersInContent\<close> of \<^verbatim>\<open>commands/create_initials.ts\<close>. The placeholders
  object is a list of keys with their values, in the order of \<^verbatim>\<open>Object.keys\<close>.
\<close>

definition replaceVariants :: "string \<times> string \<Rightarrow> string \<Rightarrow> string" where
  "replaceVariants kv result0 =
     (let key = fst kv; value = snd kv;
          result = replaceName result0 (''{{'' @ key @ ''}}'') value;
          result = replaceName result (''{{'' @ key @ ''.lowerCase}}'') value;
          result = replaceName result (''{{'' @ key @ ''.upperCase}}'') value;
          result = replaceName result (''{{'' @ key @ ''.snakeCase}}'') value;
          result = replaceName result (''{{'' @ key @ ''.pascalCase}}'') value;
          result = replaceName result (''{{'' @ key @ ''.camelCase}}'') value
      in result)"

definition replacePlaceholdersInContent :: "string \<Rightarrow> (string \<times> string) list \<Rightarrow> string" where
  "replacePlaceholdersInContent content placeholders = fold replaceVariants placeholders content"

text \<open>
  The Text Rewriter of the spec: the rules, pairs of a token and a raw value, are applied
  one after the other. The chains of \<^verbatim>\<open>replaceName\<close> calls in the commands are
  instances of it.
\<close>

definition rewrite :: "string \<Rightarrow> (string \<times> string) list \<Rightarrow> string" where
  "rewrite text rules = fold (\<lambda>rule t. replaceName t (fst rule) (snd rule)) rules text"

text \<open>The six rules that the content-rewriting routine applies for one key.\<close>

definition variantRules :: "string \<times> string \<Rightarrow> (string \<times> string) list" where
  "variantRules kv =
     [(''{{'' @ fst kv @ ''}}'', snd kv),
      (''{{'' @ fst kv @ ''.lowerCase}}'', snd kv),
      (''{{'' @ fst kv @ ''.upperCase}}'', snd kv),
      (''{{'' @ fst kv @ ''.snakeCase}}'', snd kv),
      (''{{'' @ fst kv @ ''.pascalCase}}'', snd kv),
      (''{{'' @ fst kv @ ''.camelCase}}'', snd kv)]"

text \<open>
  The text that \<^verbatim>\<open>replaceName\<close> puts in place of a token: the first case transform
  whose label occurs in the search term, or the raw value.
\<close>

definition renderedReplacement :: "string \<Rightarrow> string \<Rightarrow> string" where
  "renderedReplacement searchTerm replaceFor =
     (if includes_str searchTerm ''lowerCase'' then toLowerCase replaceFor
      else if includes_str searchTerm ''upperCase'' then toUpperCase replaceFor
      else if includes_str searchTerm ''snakeCase'' then snakeCase replaceFor
      else if includes_str searchTerm ''pascalCase'' then pascalCase replaceFor
      else if includes_str searchTerm ''camelCase'' then camelCase replaceFor
      else replaceFor)"

section \<open>Placeholders in a text\<close>

text \<open>
  A placeholder is \<^verbatim>\<open>{{body}}\<close> with no brace in the body. \<open>placeholderAt t\<close> reads the
  placeholder that \<open>t\<close> starts with and returns its body and the text behind it.
  In a closed text every \<^verbatim>\<open>{{\<close> opens a placeholder. A plain text has no brace and no
  dollar sign.
\<close>

definition braceFree :: "string \<Rightarrow> bool" where
  "braceFree s = (CHR ''{'' \<notin> set s \<and> CHR ''}'' \<notin> set s)"

fun readBody :: "string \<Rightarrow> (string \<times> string) option" where
  "readBody [] = None"
| "readBody (c # t) =
     (if c = CHR ''}'' then
        (case t of [] \<Rightarrow> None | d # rest \<Rightarrow> if d = CHR ''}'' then Some ([], rest) else None)
      else if c = CHR ''{'' then None
      else (case readBody t of None \<Rightarrow> None | Some (b, rest) \<Rightarrow> Some (c # b, rest)))"

fun placeholderAt :: "string \<Rightarrow> (string \<times> string) option" where
  "placeholderAt (c # d # u) = (if c = CHR ''{'' \<and> d = CHR ''{'' then readBody u else None)"
| "placeholderAt _ = None"

fun placeholdersClosed :: "string \<Rightarrow> bool" where
  "placeholdersClosed [] = True"
| "placeholdersClosed (c # t) =
     ((prefix ''{{'' (c # t) \<longrightarrow> placeholderAt (c # t) \<noteq> None) \<and> placeholdersClosed t)"

definition plainText :: "string \<Rightarrow> bool" where
  "plainText s = (CHR ''{'' \<notin> set s \<and> CHR ''}'' \<notin> set s \<and> CHR ''$'' \<notin> set s)"

definition bodyOf :: "string \<Rightarrow> string" where
  "bodyOf token = take (length token - 4) (drop 2 token)"

definition isToken :: "string \<Rightarrow> bool" where
  "isToken token = (placeholderAt token = Some (bodyOf token, []))"

definition ruleMap :: "(string \<times> string) list \<Rightarrow> string \<Rightarrow> string option" where
  "ruleMap rules = map_of (map (\<lambda>rule. (bodyOf (fst rule), renderedReplacement (fst rule) (snd rule))) rules)"

definition cleanMap :: "(string \<Rightarrow> string option) \<Rightarrow> bool" where
  "cleanMap \<sigma> = (\<forall>b v. \<sigma> b = Some v \<longrightarrow> braceFree v)"

text \<open>
  The token grammar of the spec: a variable name is an identifier, here any string with
  no brace and no dot, followed by nothing or by a dot and a style label.
\<close>

definition isIdentifier :: "string \<Rightarrow> bool" where
  "isIdentifier s = (\<forall>c \<in> set s. c \<noteq> CHR ''{'' \<and> c \<noteq> CHR ''}'' \<and> c \<noteq> CHR ''.'')"

definition styleSuffixes :: "string list" where
  "styleSuffixes = ['''', ''.lowerCase'', ''.upperCase'', ''.snakeCase'', ''.pascalCase'', ''.camelCase'']"


section \<open>Fixing the imports\<close>

text \<open>
  \<^verbatim>\<open>fixDartImports\<close> of \<^verbatim>\<open>commands/create_initials.ts\<close> calls \<^verbatim>\<open>replace\<close> with the global
  regular expression \<^verbatim>\<open>/package:gymtor\//g\<close>, which matches the literal text
  \<^verbatim>\<open>package:gymtor/\<close> and nothing else; with no capture group the call does what
  \<^verbatim>\<open>replaceAll\<close> does for that literal.
\<close>

definition fixDartImports :: "string \<Rightarrow> string \<Rightarrow> string" where
  "fixDartImports content packageName =
     replaceAll content ''package:gymtor/'' (''package:'' @ packageName @ ''/'')"

section \<open>Template Tree Walker\<close>

text \<open>
  \<^verbatim>\<open>getAllTemplateFiles\<close> of \<^verbatim>\<open>commands/create_initials.ts\<close>. A directory is the list of
  its entries in the order of \<^verbatim>\<open>readdirSync\<close>. The second argument is what the file system
  holds at \<open>dir\<close>: nothing (\<^verbatim>\<open>existsSync\<close> is false), a file (\<^verbatim>\<open>readdirSync\<close> throws) or a
  directory. \<open>walkItems\<close> is the loop over the entries; the recursive call on a
  subdirectory finds it existing and runs the same loop on its entries.
\<close>

datatype fsnode = File | Dir "(string \<times> fsnode) list"

datatype fs_error = ENOTDIR | ENOENT | EACCES

fun walkItems :: "string \<Rightarrow> (string \<times> fsnode) list \<Rightarrow> string list" where
  "walkItems dir [] = []"
| "walkItems dir ((item, File) # items) =
     (if endsWith item ''.template'' then [dir @ ''/'' @ item] else []) @ walkItems dir items"
| "walkItems dir ((item, Dir sub) # items) =
     walkItems (dir @ ''/'' @ item) sub @ walkItems dir items"

definition getAllTemplateFiles :: "string \<Rightarrow> fsnode option \<Rightarrow> fs_error + string list" where
  "getAllTemplateFiles dir node =
     (case node of
        None \<Rightarrow> Inr []
      | Some File \<Rightarrow> Inl ENOTDIR
      | Some (Dir items) \<Rightarrow> Inr (walkItems dir items))"


section \<open>Materializing the initial templates\<close>

text \<open>
  \<^verbatim>\<open>copyInitialTemplatesFromFolder\<close> of \<^verbatim>\<open>commands/create_initials.ts\<close>. \<^verbatim>\<open>replace\<close> with a
  string pattern replaces the first occurrence only; the pattern \<^verbatim>\<open>/\.template$/\<close> matches
  the suffix. The state holds the files by path and the messages shown to the user.
  Reading a path that holds no file throws; \<open>writable\<close> says in which states and for
  which paths creating the directory and writing the file succeed. \<open>processTemplate\<close> is the body of the
  \<^verbatim>\<open>try\<close> block, \<open>copyLoop\<close> the loop with its \<^verbatim>\<open>catch\<close>.
\<close>

fun replaceFirst_scan :: "string \<Rightarrow> string \<Rightarrow> string \<Rightarrow> string \<Rightarrow> string" where
  "replaceFirst_scan searchValue replaceValue preceding [] =
     (if searchValue = [] then GetSubstitution [] preceding [] replaceValue else [])"
| "replaceFirst_scan searchValue replaceValue preceding (c # t) =
     (if prefix searchValue (c # t) then
        GetSubstitution searchValue preceding (drop (length searchValue) (c # t)) replaceValue
          @ drop (length searchValue) (c # t)
      else c # replaceFirst_scan searchValue replaceValue (preceding @ [c]) t)"

definition replaceFirst :: "string \<Rightarrow> string \<Rightarrow> string \<Rightarrow> string" where
  "replaceFirst this searchValue replaceValue = replaceFirst_scan searchValue replaceValue [] this"

definition replaceTemplateSuffix :: "string \<Rightarrow> string" where
  "replaceTemplateSuffix path =
     (if endsWith path ''.template'' then take (length path - 9) path @ ''.dart'' else path)"

definition replacePlaceholdersInPath :: "string \<Rightarrow> (string \<times> string) list \<Rightarrow> string" where
  "replacePlaceholdersInPath path placeholders = fold replaceVariants placeholders path"

record fs_state =
  contents :: "string \<Rightarrow> string option"
  shown :: "string list"

definition readFileSync :: "fs_state \<Rightarrow> string \<Rightarrow> fs_error + string" where
  "readFileSync \<sigma> path = (case contents \<sigma> path of None \<Rightarrow> Inl ENOENT | Some c \<Rightarrow> Inr c)"

definition writeFileExtPromise ::
  "(fs_state \<Rightarrow> string \<Rightarrow> bool) \<Rightarrow> string \<Rightarrow> string \<Rightarrow> fs_state \<Rightarrow> fs_error + fs_state" where
  "writeFileExtPromise writable path c \<sigma> =
     (if writable \<sigma> path then Inr (\<sigma>\<lparr>contents := (contents \<sigma>)(path \<mapsto> c)\<rparr>) else Inl EACCES)"

definition processTemplate ::
  "(fs_state \<Rightarrow> string \<Rightarrow> bool) \<Rightarrow> string \<Rightarrow> string \<Rightarrow> string \<Rightarrow> string \<Rightarrow> string \<Rightarrow> string
     \<Rightarrow> fs_state \<Rightarrow> fs_error + fs_state" where
  "processTemplate writable templateFolder rootFolder clickedFolder packageName folderType
     templateFile \<sigma> =
     (let relativePath = replaceFirst templateFile (templateFolder @ ''/'') [];
          destinationPath =
            (if folderType = ''config'' then rootFolder @ ''/lib/config/'' @ relativePath
             else if folderType = ''core'' then rootFolder @ ''/lib/core/'' @ relativePath
             else if folderType = ''test'' then rootFolder @ ''/test/'' @ relativePath
             else rootFolder @ ''/'' @ folderType @ ''/'' @ relativePath);
          destinationPath = replaceTemplateSuffix destinationPath;
          destinationPath = replacePlaceholdersInPath destinationPath
            [(''custom_folder'', clickedFolder), (''package_name'', packageName),
             (''root_folder'', rootFolder)]
      in case readFileSync \<sigma> templateFile of
           Inl e \<Rightarrow> Inl e
         | Inr templateContent \<Rightarrow>
             (let templateContent = replacePlaceholdersInContent templateContent
                    [(''custom_folder'', clickedFolder), (''package_name'', packageName),
                     (''root_folder'', rootFolder)];
                  templateContent = fixDartImports templateContent packageName
              in writeFileExtPromise writable destinationPath templateContent \<sigma>))"

fun copyLoop ::
  "(fs_state \<Rightarrow> string \<Rightarrow> bool) \<Rightarrow> string \<Rightarrow> string \<Rightarrow> string \<Rightarrow> string \<Rightarrow> string \<Rightarrow> string list
     \<Rightarrow> fs_state \<times> nat \<Rightarrow> fs_state \<times> nat" where
  "copyLoop writable templateFolder rootFolder clickedFolder packageName folderType [] st = st"
| "copyLoop writable templateFolder rootFolder clickedFolder packageName folderType
     (templateFile # rest) (\<sigma>, filesCreated) =
     (case processTemplate writable templateFolder rootFolder clickedFolder packageName folderType
             templateFile \<sigma> of
        Inr \<sigma>' \<Rightarrow>
          copyLoop writable templateFolder rootFolder clickedFolder packageName folderType rest
            (\<sigma>', filesCreated + 1)
      | Inl e \<Rightarrow>
          copyLoop writable templateFolder rootFolder clickedFolder packageName folderType rest
            (\<sigma>\<lparr>shown := shown \<sigma> @ [''Error processing template: '' @ templateFile]\<rparr>,
             filesCreated))"

definition copyInitialTemplatesFromFolder ::
  "(fs_state \<Rightarrow> string \<Rightarrow> bool) \<Rightarrow> fsnode option \<Rightarrow> fs_state \<Rightarrow> string \<Rightarrow> string \<Rightarrow> string \<Rightarrow> string
     \<Rightarrow> string \<Rightarrow> fs_error + fs_state \<times> nat" where
  "copyInitialTemplatesFromFolder writable tree \<sigma> templateFolder rootFolder clickedFolder
     packageName folderType =
     (case getAllTemplateFiles templateFolder tree of
        Inl e \<Rightarrow> Inl e
      | Inr templateFiles \<Rightarrow>
          Inr (copyLoop writable templateFolder rootFolder clickedFolder packageName folderType
                 templateFiles (\<sigma>, 0)))"

text \<open>A small file system: two templates, the destination of the first is not writable.\<close>

definition demoState :: fs_state where
  "demoState = \<lparr>contents = [''r/t/core/a.template'' \<mapsto> ''// a'',
                              ''r/t/core/api/b.template'' \<mapsto> ''// {{package_name}}''],
                 shown = []\<rparr>"

definition demoWritable :: "fs_state \<Rightarrow> string \<Rightarrow> bool" where
  "demoWritable \<sigma> path = (path \<noteq> ''r/lib/core/a.dart'')"

section \<open>The use-case command\<close>















section \<open>Facts about scanning\<close>

text \<open>
  The scan on small inputs: matches do not overlap, an empty search string matches at
  every position, and the patterns of the replacement string are expanded. A package
  name or a value with such a pattern is therefore not put in as it stands.
\<close>

lemma replaceAll_examples:
  "replaceAll ''aaa'' ''aa'' ''b'' = ''ba''"
  "replaceAll ''ab'' [] ''-'' = ''-a-b-''"
  "replaceAll ''xaby'' ''ab'' ''[$&|$$|$1]'' = ''x[ab|$|$1]y''"
  "replaceFirst ''t/a/t/a'' ''t/'' [] = ''a/t/a''"
  by code_simp+

lemma replacement_pattern_examples:
  "fixDartImports ''package:gymtor/x.dart'' ''a$$b'' = ''package:a$b/x.dart''"
  "replaceName ''{{package_name}}'' ''{{package_name}}'' ''a$$b'' = ''a$b''"
  by code_simp+

lemma GetSubstitution_plain:
  "CHR ''$'' \<notin> set r \<Longrightarrow> GetSubstitution m p f r = r"
  by (induction m p f r rule: GetSubstitution.induct) auto

lemma scan_unchanged:
  "s \<noteq> [] \<Longrightarrow> \<not> sublist s t \<Longrightarrow> replaceAll_scan s r p t = t"
proof (induction t arbitrary: p)
  case Nil
  then show ?case by simp
next
  case (Cons c t)
  then show ?case by (auto simp: sublist_Cons_right)
qed

lemma scan_plain_indep:
  "CHR ''$'' \<notin> set r \<Longrightarrow> s \<noteq> [] \<Longrightarrow> replaceAll_scan s r p t = replaceAll_scan s r [] t"
proof (induction t arbitrary: p rule: length_induct)
  case (1 t)
  show ?case
  proof (cases t)
    case Nil
    then show ?thesis using 1 by simp
  next
    case (Cons c u)
    show ?thesis
    proof (cases "prefix s (c # u)")
      case True
      have "length (drop (length s) (c # u)) < length t" using 1(3) Cons by simp
      then have "replaceAll_scan s r (p @ s) (drop (length s) (c # u)) = replaceAll_scan s r [] (drop (length s) (c # u))"
        "replaceAll_scan s r ([] @ s) (drop (length s) (c # u)) = replaceAll_scan s r [] (drop (length s) (c # u))"
        using 1 by blast+
      then show ?thesis using True Cons 1(2,3) by (simp add: GetSubstitution_plain)
    next
      case False
      have "length u < length t" using Cons by simp
      then have "replaceAll_scan s r (p @ [c]) u = replaceAll_scan s r [] u"
         "replaceAll_scan s r ([] @ [c]) u = replaceAll_scan s r [] u"
        using 1 by blast+
      then show ?thesis using False Cons 1(2,3) by simp
    qed
  qed
qed

lemma readBody_complete:
  "braceFree b \<Longrightarrow> readBody (b @ CHR ''}'' # CHR ''}'' # rest) = Some (b, rest)"
  by (induction b) (auto simp: braceFree_def)

lemma readBody_sound:
  "readBody u = Some (b, rest) \<Longrightarrow> braceFree b \<and> u = b @ CHR ''}'' # CHR ''}'' # rest"
proof (induction u arbitrary: b)
  case Nil
  then show ?case by simp
next
  case (Cons c u)
  show ?case
  proof (cases "c = CHR ''}''")
    case True
    then show ?thesis using Cons.prems
      by (cases u) (simp_all add: braceFree_def split: if_splits)
  next
    case False
    note nc = False
    show ?thesis
    proof (cases "c = CHR ''{''")
      case True
      then show ?thesis using Cons.prems by simp
    next
      case False
      then obtain b' where rb: "readBody u = Some (b', rest)" and b: "b = c # b'"
        using Cons.prems nc by (auto split: option.splits prod.splits)
      from Cons.IH[OF rb] show ?thesis using b nc False by (simp add: braceFree_def)
    qed
  qed
qed

lemma readBody_iff:
  "readBody u = Some (b, rest) \<longleftrightarrow> braceFree b \<and> u = b @ ''}}'' @ rest"
  using readBody_complete readBody_sound by fastforce

lemma placeholderAt_iff:
  "placeholderAt t = Some (b, rest) \<longleftrightarrow> braceFree b \<and> t = ''{{'' @ b @ ''}}'' @ rest"
  by (cases t rule: placeholderAt.cases) (auto simp: readBody_iff)

lemma placeholderAt_length:
  "placeholderAt t = Some (b, rest) \<Longrightarrow> length rest < length t"
  by (simp add: placeholderAt_iff)

lemma body_unique:
  "braceFree b \<Longrightarrow> braceFree b' \<Longrightarrow> prefix (b @ CHR ''}'' # x) (b' @ CHR ''}'' # y) \<Longrightarrow> b = b'"
proof (induction b arbitrary: b')
  case Nil
  then show ?case by (cases b') (auto simp: braceFree_def)
next
  case (Cons c b)
  then show ?case by (cases b') (auto simp: braceFree_def)
qed

lemma prefix_token_iff:
  assumes "braceFree b"
  shows "prefix (''{{'' @ b @ ''}}'') t \<longleftrightarrow> (\<exists>rest. placeholderAt t = Some (b, rest))"
  using assms by (auto simp: placeholderAt_iff prefix_def)

text \<open>
  Simultaneous substitution, the reading of the spec: one pass over the text replaces
  every placeholder whose body the map binds; the text put in is not looked at again.
\<close>

function substitute :: "(string \<Rightarrow> string option) \<Rightarrow> string \<Rightarrow> string" where
  "substitute \<sigma> [] = []"
| "substitute \<sigma> (c # t) =
     (case placeholderAt (c # t) of
        Some (b, rest) \<Rightarrow>
          (case \<sigma> b of Some v \<Rightarrow> v | None \<Rightarrow> ''{{'' @ b @ ''}}'') @ substitute \<sigma> rest
      | None \<Rightarrow> c # substitute \<sigma> t)"
  by pat_completeness auto
termination
  by (relation "measure (\<lambda>(\<sigma>, t). length t)") (auto dest: placeholderAt_length)

lemma placeholderAt_not_open:
  "c \<noteq> CHR ''{'' \<Longrightarrow> placeholderAt (c # t) = None"
  by (cases t) simp_all

lemma substitute_no_open:
  "CHR ''{'' \<notin> set u \<Longrightarrow> substitute \<sigma> (u @ y) = u @ substitute \<sigma> y"
  by (induction u) (auto simp: placeholderAt_not_open)

lemma scan_no_open:
  "CHR ''{'' \<notin> set u \<Longrightarrow> replaceAll_scan (CHR ''{'' # s) r p (u @ y) = u @ replaceAll_scan (CHR ''{'' # s) r (p @ u) y"
  by (induction u arbitrary: p) auto

lemma scan_other_token:
  assumes "braceFree b" "braceFree b'" "b \<noteq> b'"
  shows "replaceAll_scan (''{{'' @ b @ ''}}'') r p (''{{'' @ b' @ ''}}'' @ rest)
         = ''{{'' @ b' @ ''}}'' @ replaceAll_scan (''{{'' @ b @ ''}}'') r (p @ ''{{'' @ b' @ ''}}'') rest"
proof -
  let ?s = "''{{'' @ b @ ''}}''"
  have n0: "\<not> prefix ?s (''{{'' @ b' @ ''}}'' @ rest)"
    using body_unique[OF assms(1,2)] assms(3) by auto
  have n1: "\<not> prefix ?s (CHR ''{'' # b' @ ''}}'' @ rest)"
    using assms(2) by (cases b') (auto simp: braceFree_def)
  have no: "CHR ''{'' \<notin> set (b' @ ''}}'')" using assms(2) by (simp add: braceFree_def)
  have "replaceAll_scan ?s r p (''{{'' @ b' @ ''}}'' @ rest)
        = CHR ''{'' # replaceAll_scan ?s r (p @ ''{'') (CHR ''{'' # b' @ ''}}'' @ rest)"
    using n0 by simp
  also have "replaceAll_scan ?s r (p @ ''{'') (CHR ''{'' # b' @ ''}}'' @ rest)
        = CHR ''{'' # replaceAll_scan ?s r ((p @ ''{'') @ ''{'') ((b' @ ''}}'') @ rest)"
    using n1 by simp
  also have "replaceAll_scan ?s r ((p @ ''{'') @ ''{'') ((b' @ ''}}'') @ rest)
        = (b' @ ''}}'') @ replaceAll_scan ?s r (((p @ ''{'') @ ''{'') @ (b' @ ''}}'')) rest"
    using scan_no_open[OF no, of "CHR ''{'' # b @ ''}}''"] by simp
  finally show ?thesis by simp
qed

lemma scan_step_match:
  "s \<noteq> [] \<Longrightarrow> prefix s t \<Longrightarrow>
   replaceAll_scan s r p t
     = GetSubstitution s p (drop (length s) t) r @ replaceAll_scan s r (p @ s) (drop (length s) t)"
  by (cases t) auto

lemma scan_step_skip:
  "s \<noteq> [] \<Longrightarrow> \<not> prefix s (c # t) \<Longrightarrow>
   replaceAll_scan s r p (c # t) = c # replaceAll_scan s r (p @ [c]) t"
  by simp

lemma replaceAll_substitute:
  assumes "braceFree b" "CHR ''$'' \<notin> set v" and sg: "\<And>c. \<sigma> c = (if c = b then Some v else None)"
  shows "replaceAll_scan (''{{'' @ b @ ''}}'') v [] t = substitute \<sigma> t"
proof -
  define s where "s = ''{{'' @ b @ ''}}''"
  have ne: "s \<noteq> []" by (simp add: s_def)
  have indep: "\<And>p t. replaceAll_scan s v p t = replaceAll_scan s v [] t"
    using scan_plain_indep[OF assms(2) ne] by blast
  have "replaceAll_scan s v [] t = substitute \<sigma> t"
  proof (induction t rule: length_induct)
    case (1 t)
    show ?case
    proof (cases t)
      case Nil
      then show ?thesis using ne by simp
    next
      case (Cons c u)
      show ?thesis
      proof (cases "placeholderAt (c # u)")
        case None
        then have np: "\<not> prefix s (c # u)"
          using prefix_token_iff[OF assms(1), of "c # u"] unfolding s_def by simp
        have ih: "replaceAll_scan s v [] u = substitute \<sigma> u"
          using 1 Cons by (metis length_Cons lessI)
        have "replaceAll_scan s v [] (c # u) = c # replaceAll_scan s v ([] @ [c]) u"
          using scan_step_skip[OF ne np] by blast
        also have "\<dots> = c # replaceAll_scan s v [] u" using indep by metis
        finally show ?thesis using None Cons ih by simp
      next
        case (Some br)
        obtain b' rest where br: "br = (b', rest)" by (cases br)
        have pa: "placeholderAt (c # u) = Some (b', rest)" using Some br by simp
        then have bf: "braceFree b'" and cu: "c # u = ''{{'' @ b' @ ''}}'' @ rest"
          by (simp_all add: placeholderAt_iff)
        have lt: "length rest < length t" using placeholderAt_length[OF pa] Cons by simp
        have ih: "replaceAll_scan s v [] rest = substitute \<sigma> rest"
          using 1 lt by blast
        have sub: "substitute \<sigma> (c # u)
                   = (if b' = b then v else ''{{'' @ b' @ ''}}'') @ substitute \<sigma> rest"
          using pa sg by simp
        show ?thesis
        proof (cases "b' = b")
          case True
          then have cu': "c # u = s @ rest" using cu by (simp add: s_def)
          then have pre: "prefix s (c # u)" by simp
          have dr: "drop (length s) (c # u) = rest" using cu' by simp
          have "replaceAll_scan s v [] (c # u) = v @ replaceAll_scan s v ([] @ s) rest"
            using scan_step_match[OF ne pre, of v "[]"] dr GetSubstitution_plain[OF assms(2)] by simp
          also have "replaceAll_scan s v ([] @ s) rest = replaceAll_scan s v [] rest"
            using indep by metis
          finally show ?thesis using sub True ih Cons by simp
        next
          case False
          then have "b \<noteq> b'" by simp
          from scan_other_token[OF assms(1) bf this, of v "[]" rest]
          have "replaceAll_scan s v [] (c # u) = ''{{'' @ b' @ ''}}'' @ replaceAll_scan s v ([] @ ''{{'' @ b' @ ''}}'') rest"
            unfolding s_def cu by simp
          also have "replaceAll_scan s v ([] @ ''{{'' @ b' @ ''}}'') rest = replaceAll_scan s v [] rest"
            using indep by metis
          finally show ?thesis using sub False ih Cons by simp
        qed
      qed
    qed
  qed
  then show ?thesis by (simp add: s_def)
qed

lemma placeholdersClosed_rest:
  "placeholdersClosed (u @ t) \<Longrightarrow> placeholdersClosed t"
  by (induction u) auto

lemma substitute_hd:
  "t = [] \<or> hd t \<noteq> CHR ''{'' \<Longrightarrow> substitute \<sigma> t = [] \<or> hd (substitute \<sigma> t) \<noteq> CHR ''{''"
  by (cases t) (auto simp: placeholderAt_not_open)

lemma placeholderAt_hd:
  "placeholderAt (c # t) \<noteq> None \<Longrightarrow> c = CHR ''{'' \<and> t \<noteq> [] \<and> hd t = CHR ''{''"
  by (cases t) (auto split: if_splits)

lemma substitute_placeholder:
  "braceFree b \<Longrightarrow>
   substitute \<tau> (''{{'' @ b @ ''}}'' @ y)
     = (case \<tau> b of Some v \<Rightarrow> v | None \<Rightarrow> ''{{'' @ b @ ''}}'') @ substitute \<tau> y"
proof -
  assume "braceFree b"
  then have "placeholderAt (CHR ''{'' # CHR ''{'' # b @ ''}}'' @ y) = Some (b, y)"
    using placeholderAt_iff[of "CHR ''{'' # CHR ''{'' # b @ ''}}'' @ y" b y] by simp
  then show ?thesis by simp
qed

lemma substitute_compose:
  assumes bf: "\<And>b v. \<sigma> b = Some v \<Longrightarrow> braceFree v"
  shows "placeholdersClosed t \<Longrightarrow> substitute \<tau> (substitute \<sigma> t) = substitute (\<tau> ++ \<sigma>) t"
proof (induction t rule: length_induct)
  case (1 t)
  show ?case
  proof (cases t)
    case Nil
    then show ?thesis by simp
  next
    case (Cons c u)
    show ?thesis
    proof (cases "placeholderAt (c # u)")
      case None
      have cl: "placeholdersClosed u" using 1(2) Cons by simp
      have ih: "substitute \<tau> (substitute \<sigma> u) = substitute (\<tau> ++ \<sigma>) u"
        using 1(1) cl Cons by simp
      have "placeholderAt (c # substitute \<sigma> u) = None"
      proof (cases "c = CHR ''{''")
        case False
        then show ?thesis by (simp add: placeholderAt_not_open)
      next
        case True
        have "\<not> prefix ''{{'' (c # u)" using 1(2) Cons None by auto
        then have "u = [] \<or> hd u \<noteq> CHR ''{''" using True by (cases u) auto
        from substitute_hd[OF this, of \<sigma>] show ?thesis
          using placeholderAt_hd[of c "substitute \<sigma> u"] by blast
      qed
      then show ?thesis using None Cons ih by simp
    next
      case (Some br)
      obtain b rest where br: "br = (b, rest)" by (cases br)
      have pa: "placeholderAt (c # u) = Some (b, rest)" using Some br by simp
      then have bfb: "braceFree b" and cu: "c # u = (''{{'' @ b @ ''}}'') @ rest"
        by (simp_all add: placeholderAt_iff)
      have lt: "length rest < length t" using placeholderAt_length[OF pa] Cons by simp
      have cl: "placeholdersClosed rest" using 1(2) Cons cu placeholdersClosed_rest by metis
      have ih: "substitute \<tau> (substitute \<sigma> rest) = substitute (\<tau> ++ \<sigma>) rest"
        using 1(1) lt cl by blast
      show ?thesis
      proof (cases "\<sigma> b")
        case None
        have "substitute \<sigma> (c # u) = ''{{'' @ b @ ''}}'' @ substitute \<sigma> rest"
          using pa None by simp
        then have "substitute \<tau> (substitute \<sigma> (c # u))
            = (case \<tau> b of Some v \<Rightarrow> v | None \<Rightarrow> ''{{'' @ b @ ''}}'') @ substitute \<tau> (substitute \<sigma> rest)"
          using substitute_placeholder[OF bfb] by simp
        moreover have "(\<tau> ++ \<sigma>) b = \<tau> b" using None by (simp add: map_add_def)
        ultimately show ?thesis using pa ih Cons by simp
      next
        case (Some v)
        have "CHR ''{'' \<notin> set v" using bf[OF Some] by (simp add: braceFree_def)
        then have "substitute \<tau> (v @ substitute \<sigma> rest) = v @ substitute \<tau> (substitute \<sigma> rest)"
          by (rule substitute_no_open)
        moreover have "substitute \<sigma> (c # u) = v @ substitute \<sigma> rest"
          using pa Some by simp
        moreover have "(\<tau> ++ \<sigma>) b = Some v" using Some by (simp add: map_add_def)
        ultimately show ?thesis using pa ih Cons by simp
      qed
    qed
  qed
qed

lemma substitute_empty: "substitute Map.empty t = t"
proof (induction t rule: length_induct)
  case (1 t)
  show ?case
  proof (cases t)
    case Nil
    then show ?thesis by simp
  next
    case (Cons c u)
    show ?thesis
    proof (cases "placeholderAt (c # u)")
      case None
      then show ?thesis using 1 Cons by simp
    next
      case (Some br)
      obtain b rest where br: "br = (b, rest)" by (cases br)
      have pa: "placeholderAt (c # u) = Some (b, rest)" using Some br by simp
      then have cu: "c # u = (''{{'' @ b @ ''}}'') @ rest"
        by (simp_all add: placeholderAt_iff)
      have lt: "length rest < length t" using placeholderAt_length[OF pa] Cons by simp
      then have "substitute Map.empty rest = rest" using 1 by blast
      then show ?thesis using pa cu Cons by simp
    qed
  qed
qed

lemma scan_delete_length:
  "s \<noteq> [] \<Longrightarrow> length (replaceAll_scan s [] p t) \<le> length t"
proof (induction t arbitrary: p rule: length_induct)
  case (1 t)
  show ?case
  proof (cases t)
    case Nil
    then show ?thesis using 1(2) by simp
  next
    case (Cons c u)
    show ?thesis
    proof (cases "prefix s (c # u)")
      case True
      have "length (drop (length s) (c # u)) < length t" using Cons 1(2) by simp
      then have "length (replaceAll_scan s [] (p @ s) (drop (length s) (c # u))) \<le> length (drop (length s) (c # u))"
        using 1 by blast
      then show ?thesis using True Cons 1(2) by simp
    next
      case False
      have "length (replaceAll_scan s [] (p @ [c]) u) \<le> length u" using 1 Cons by simp
      then show ?thesis using False Cons 1(2) by simp
    qed
  qed
qed

lemma scan_delete_shorter:
  "s \<noteq> [] \<Longrightarrow> sublist s t \<Longrightarrow> length (replaceAll_scan s [] p t) < length t"
proof (induction t arbitrary: p)
  case Nil
  then show ?case by simp
next
  case (Cons c u)
  show ?case
  proof (cases "prefix s (c # u)")
    case True
    have "length (replaceAll_scan s [] (p @ s) (drop (length s) (c # u))) \<le> length (drop (length s) (c # u))"
      using scan_delete_length[OF Cons.prems(1)] by blast
    moreover have "length (drop (length s) (c # u)) < length (c # u)"
      using Cons.prems(1) by (cases s) simp_all
    moreover have "replaceAll_scan s [] p (c # u)
                   = replaceAll_scan s [] (p @ s) (drop (length s) (c # u))"
      using True Cons.prems(1) by simp
    ultimately show ?thesis by (metis order.strict_trans1)
  next
    case False
    then have "sublist s u" using Cons.prems(2) by (simp add: sublist_Cons_right)
    from Cons.IH[OF Cons.prems(1) this] show ?thesis using False Cons.prems(1) by simp
  qed
qed

lemma cleanMap_add: "cleanMap \<sigma> \<Longrightarrow> braceFree w \<Longrightarrow> cleanMap (Map.empty(b \<mapsto> w) ++ \<sigma>)"
  by (auto simp: cleanMap_def map_add_def split: option.splits if_splits)

lemma pass_plain:
  assumes "braceFree b" "plainText w" "cleanMap \<sigma>" "placeholdersClosed t"
  shows "replaceAll (substitute \<sigma> t) (''{{'' @ b @ ''}}'') w = substitute (Map.empty(b \<mapsto> w) ++ \<sigma>) t"
proof -
  have d: "CHR ''$'' \<notin> set w" using assms(2) by (simp add: plainText_def)
  have "replaceAll (substitute \<sigma> t) (''{{'' @ b @ ''}}'') w = substitute (Map.empty(b \<mapsto> w)) (substitute \<sigma> t)"
    unfolding replaceAll_def by (rule replaceAll_substitute[OF assms(1) d]) simp
  also have "\<dots> = substitute (Map.empty(b \<mapsto> w) ++ \<sigma>) t"
    using substitute_compose[of \<sigma> t] assms(3,4) by (simp add: cleanMap_def)
  finally show ?thesis .
qed

lemma pass_done:
  assumes "braceFree b" "cleanMap \<sigma>" "placeholdersClosed t" "\<sigma> b \<noteq> None"
  shows "replaceAll (substitute \<sigma> t) (''{{'' @ b @ ''}}'') w = substitute \<sigma> t"
proof -
  define s where "s = ''{{'' @ b @ ''}}''"
  have ne: "s \<noteq> []" by (simp add: s_def)
  have "plainText []" by (simp add: plainText_def)
  from pass_plain[OF assms(1) this assms(2,3)]
  have "replaceAll (substitute \<sigma> t) s [] = substitute (Map.empty(b \<mapsto> []) ++ \<sigma>) t"
    by (simp add: s_def)
  moreover have "Map.empty(b \<mapsto> []) ++ \<sigma> = \<sigma>"
    using assms(4) by (auto simp: map_add_def split: option.splits)
  ultimately have "replaceAll_scan s [] [] (substitute \<sigma> t) = substitute \<sigma> t"
    by (simp add: replaceAll_def)
  then have "\<not> sublist s (substitute \<sigma> t)"
    using scan_delete_shorter[OF ne, of "substitute \<sigma> t" "[]"] by auto
  then have "replaceAll_scan s w [] (substitute \<sigma> t) = substitute \<sigma> t"
    using scan_unchanged[OF ne] by blast
  then show ?thesis by (simp add: replaceAll_def s_def)
qed

lemma replaceName_substitute:
  assumes b: "braceFree b" and w: "plainText (renderedReplacement (''{{'' @ b @ ''}}'') v)"
    and cm: "cleanMap \<sigma>" and cl: "placeholdersClosed t"
  shows "replaceName (substitute \<sigma> t) (''{{'' @ b @ ''}}'') v
         = substitute (Map.empty(b \<mapsto> renderedReplacement (''{{'' @ b @ ''}}'') v) ++ \<sigma>) t"
proof -
  define s where "s = ''{{'' @ b @ ''}}''"
  define w where "w = renderedReplacement s v"
  define \<sigma>' where "\<sigma>' = Map.empty(b \<mapsto> w) ++ \<sigma>"
  have pw: "plainText w" using w by (simp add: w_def s_def)
  then have bw: "braceFree w" by (simp add: plainText_def braceFree_def)
  have first: "replaceAll (substitute \<sigma> t) s w = substitute \<sigma>' t"
    using pass_plain[OF b pw cm cl] by (simp add: s_def \<sigma>'_def)
  have cm': "cleanMap \<sigma>'" unfolding \<sigma>'_def by (rule cleanMap_add[OF cm bw])
  have "\<sigma>' b \<noteq> None" by (simp add: \<sigma>'_def map_add_def split: option.splits)
  then have later: "\<And>x. replaceAll (substitute \<sigma>' t) s x = substitute \<sigma>' t"
    using pass_done[OF b cm' cl] by (simp add: s_def)
  have "replaceName (substitute \<sigma> t) s v = substitute \<sigma>' t"
    using first later unfolding replaceName_def Let_def w_def renderedReplacement_def
    by (simp split: if_splits)
  then show ?thesis by (simp add: s_def \<sigma>'_def w_def)
qed

lemma isToken_shape:
  "isToken token \<Longrightarrow> braceFree (bodyOf token) \<and> token = ''{{'' @ bodyOf token @ ''}}''"
  by (simp add: isToken_def placeholderAt_iff)

lemma rewrite_substitute_gen:
  assumes cl: "placeholdersClosed t"
  shows "\<forall>rule \<in> set rules. isToken (fst rule) \<and> plainText (renderedReplacement (fst rule) (snd rule))
         \<Longrightarrow> cleanMap \<sigma>
         \<Longrightarrow> rewrite (substitute \<sigma> t) rules = substitute (ruleMap rules ++ \<sigma>) t"
proof (induction rules arbitrary: \<sigma>)
  case Nil
  then show ?case by (simp add: rewrite_def ruleMap_def)
next
  case (Cons rule rules)
  define b where "b = bodyOf (fst rule)"
  define w where "w = renderedReplacement (fst rule) (snd rule)"
  have tok: "isToken (fst rule)" and pw: "plainText w" using Cons.prems(1) by (simp_all add: w_def)
  have bf: "braceFree b" and sh: "fst rule = ''{{'' @ b @ ''}}''"
    using isToken_shape[OF tok] by (simp_all add: b_def)
  have bw: "braceFree w" using pw by (simp add: plainText_def braceFree_def)
  have pw': "plainText (renderedReplacement (''{{'' @ b @ ''}}'') (snd rule))"
    using pw sh by (simp add: w_def)
  have step: "replaceName (substitute \<sigma> t) (fst rule) (snd rule)
              = substitute (Map.empty(b \<mapsto> w) ++ \<sigma>) t"
    using replaceName_substitute[OF bf pw' Cons.prems(2) cl] sh by (simp add: w_def)
  have cm': "cleanMap (Map.empty(b \<mapsto> w) ++ \<sigma>)" by (rule cleanMap_add[OF Cons.prems(2) bw])
  have rest: "\<forall>rule \<in> set rules. isToken (fst rule) \<and> plainText (renderedReplacement (fst rule) (snd rule))"
    using Cons.prems(1) by simp
  have "rewrite (substitute \<sigma> t) (rule # rules)
        = rewrite (replaceName (substitute \<sigma> t) (fst rule) (snd rule)) rules"
    by (simp add: rewrite_def)
  also have "\<dots> = substitute (ruleMap rules ++ (Map.empty(b \<mapsto> w) ++ \<sigma>)) t"
    using Cons.IH[OF rest cm'] step by simp
  also have "ruleMap rules ++ (Map.empty(b \<mapsto> w) ++ \<sigma>) = ruleMap (rule # rules) ++ \<sigma>"
    by (rule ext) (simp add: ruleMap_def map_add_def b_def w_def split: option.splits)
  finally show ?case .
qed

lemma rewrite_substitute:
  assumes "placeholdersClosed t"
    and "\<forall>rule \<in> set rules. isToken (fst rule) \<and> plainText (renderedReplacement (fst rule) (snd rule))"
  shows "rewrite t rules = substitute (ruleMap rules) t"
proof -
  have "cleanMap Map.empty" by (simp add: cleanMap_def)
  from rewrite_substitute_gen[OF assms(1) assms(2) this] show ?thesis
    by (simp add: substitute_empty)
qed

lemma bodyOf_inj:
  "isToken a \<Longrightarrow> isToken b \<Longrightarrow> bodyOf a = bodyOf b \<Longrightarrow> a = b"
  using isToken_shape by metis

lemma ruleMap_permute:
  assumes "\<forall>rule \<in> set rules. isToken (fst rule)" "distinct (map fst rules)" "mset rules' = mset rules"
  shows "ruleMap rules' = ruleMap rules"
proof -
  let ?f = "\<lambda>rule. (bodyOf (fst rule), renderedReplacement (fst rule) (snd rule))"
  have inj: "inj_on bodyOf (fst ` set rules)"
    using assms(1) bodyOf_inj by (auto simp: inj_on_def)
  have d: "distinct (map fst (map ?f rules))"
    using assms(2) inj by (simp add: distinct_map comp_def inj_on_def) 
  have se: "set rules' = set rules" using assms(3) by (metis set_mset_mset)
  have "mset (map fst rules') = mset (map fst rules)" using assms(3) by (metis mset_map)
  then have d2: "distinct (map fst rules')" using assms(2) by (metis mset_eq_imp_distinct_iff)
  have d': "distinct (map fst (map ?f rules'))"
    using d2 inj se by (simp add: distinct_map comp_def inj_on_def)
  have "set (map ?f rules') = set (map ?f rules)" using se by simp
  then show ?thesis unfolding ruleMap_def using d d' map_of_inject_set by blast
qed

lemma sublist_no_open:
  "CHR ''{'' \<notin> set u \<Longrightarrow> sublist (CHR ''{'' # x) (u @ y) \<Longrightarrow> sublist (CHR ''{'' # x) y"
  by (induction u) (auto simp: sublist_Cons_right)

lemma sublist_behind_token:
  assumes "braceFree b" "braceFree n" "b \<noteq> n"
    and "sublist (''{{'' @ n @ ''}}'') (''{{'' @ b @ ''}}'' @ rest)"
  shows "sublist (''{{'' @ n @ ''}}'') rest"
proof -
  define k where "k = CHR ''{'' # n @ ''}}''"
  have n0: "\<not> prefix (''{{'' @ n @ ''}}'') (''{{'' @ b @ ''}}'' @ rest)"
    using body_unique[OF assms(2,1)] assms(3) by auto
  have n1: "\<not> prefix (''{{'' @ n @ ''}}'') (CHR ''{'' # b @ ''}}'' @ rest)"
    using assms(1) by (cases b) (auto simp: braceFree_def)
  have no: "CHR ''{'' \<notin> set (b @ ''}}'')" using assms(1) by (simp add: braceFree_def)
  have "sublist (CHR ''{'' # k) (CHR ''{'' # CHR ''{'' # (b @ ''}}'') @ rest)"
    using assms(4) by (simp add: k_def)
  then have "sublist (CHR ''{'' # k) (CHR ''{'' # (b @ ''}}'') @ rest)"
    using n0 by (simp add: sublist_Cons_right k_def)
  then have "sublist (CHR ''{'' # k) ((b @ ''}}'') @ rest)"
    using n1 by (simp add: sublist_Cons_right k_def)
  from sublist_no_open[OF no this] show ?thesis by (simp add: k_def)
qed

lemma scan_keeps_token:
  assumes "braceFree b" "braceFree n" "b \<noteq> n"
  shows "sublist (''{{'' @ n @ ''}}'') t
         \<Longrightarrow> sublist (''{{'' @ n @ ''}}'') (replaceAll_scan (''{{'' @ b @ ''}}'') r p t)"
proof (induction t arbitrary: p rule: length_induct)
  case (1 t)
  define s where "s = ''{{'' @ b @ ''}}''"
  define k where "k = ''{{'' @ n @ ''}}''"
  have ne: "s \<noteq> []" by (simp add: s_def)
  have kne: "k \<noteq> []" by (simp add: k_def)
  have sub: "sublist k t" using 1(2) by (simp add: k_def)
  have ih: "\<And>u q. length u < length t \<Longrightarrow> sublist k u \<Longrightarrow> sublist k (replaceAll_scan s r q u)"
    using 1(1) by (simp add: k_def s_def)
  have "sublist k (replaceAll_scan s r p t)"
  proof (cases t)
    case Nil
    then show ?thesis using sub kne by simp
  next
    case (Cons c u)
    show ?thesis
    proof (cases "prefix s (c # u)")
      case True
      then obtain rest where cu: "c # u = s @ rest" by (auto simp: prefix_def)
      have dr: "drop (length s) (c # u) = rest" using cu by simp
      have "sublist k rest"
        using sublist_behind_token[OF assms, of rest] sub Cons cu by (simp add: k_def s_def)
      moreover have "length rest < length t" using cu Cons ne by (metis dr length_drop diff_less length_greater_0_conv list.distinct(1))
      ultimately have "sublist k (replaceAll_scan s r (p @ s) rest)" using ih by blast
      then have "sublist k (GetSubstitution s p rest r @ replaceAll_scan s r (p @ s) rest)"
        by (metis sublist_def append_assoc)
      then show ?thesis using scan_step_match[OF ne True, of r p] dr Cons by simp
    next
      case False
      have step: "replaceAll_scan s r p (c # u) = c # replaceAll_scan s r (p @ [c]) u"
        by (rule scan_step_skip[OF ne False])
      from sub Cons have "prefix k (c # u) \<or> sublist k u" by (simp add: sublist_Cons_right)
      then show ?thesis
      proof
        assume "sublist k u"
        then have "sublist k (replaceAll_scan s r (p @ [c]) u)" using ih Cons by simp
        then show ?thesis using step Cons by (simp add: sublist_Cons_right)
      next
        assume "prefix k (c # u)"
        then obtain rest where cu: "c # u = k @ rest" by (auto simp: prefix_def)
        have "replaceAll_scan s r p (k @ rest) = k @ replaceAll_scan s r (p @ k) rest"
          using scan_other_token[OF assms, of r p rest] by (simp add: s_def k_def)
        then show ?thesis using cu Cons by simp
      qed
    qed
  qed
  then show ?case by (simp add: k_def s_def)
qed

lemma replaceName_keeps_token:
  assumes "braceFree b" "braceFree n" "b \<noteq> n" "sublist (''{{'' @ n @ ''}}'') t"
  shows "sublist (''{{'' @ n @ ''}}'') (replaceName t (''{{'' @ b @ ''}}'') v)"
proof -
  define s where "s = ''{{'' @ b @ ''}}''"
  define k where "k = ''{{'' @ n @ ''}}''"
  have step: "\<And>x r. sublist k x \<Longrightarrow> sublist k (replaceAll x s r)"
    unfolding replaceAll_def s_def k_def by (rule scan_keeps_token[OF assms(1,2,3)])
  have t: "sublist k t" using assms(4) by (simp add: k_def)
  have "sublist k (replaceName t s v)"
    unfolding replaceName_def Let_def using t by (simp add: step)
  then show ?thesis by (simp add: s_def k_def)
qed

lemma suffix_shape:
  "s \<in> set styleSuffixes \<Longrightarrow> braceFree s \<and> (s = [] \<or> hd s = CHR ''.'')"
  by (auto simp: styleSuffixes_def braceFree_def)

lemma identifier_suffix_inj:
  assumes "isIdentifier a" "isIdentifier b" "s \<in> set styleSuffixes" "s' \<in> set styleSuffixes"
    and "a @ s = b @ s'"
  shows "a = b"
proof -
  have tw: "\<And>x y. isIdentifier x \<Longrightarrow> y = [] \<or> hd y = CHR ''.'' \<Longrightarrow> takeWhile (\<lambda>c. c \<noteq> CHR ''.'') (x @ y) = x"
  proof -
    fix x y assume x: "isIdentifier x" and y: "y = [] \<or> hd y = (CHR ''.'')"
    have "\<forall>c \<in> set x. c \<noteq> CHR ''.''" using x by (simp add: isIdentifier_def)
    then have "takeWhile (\<lambda>c. c \<noteq> CHR ''.'') (x @ y) = x @ takeWhile (\<lambda>c. c \<noteq> CHR ''.'') y"
      by (simp add: takeWhile_append2)
    moreover have "takeWhile (\<lambda>c. c \<noteq> CHR ''.'') y = []" using y by (cases y) auto
    ultimately show "takeWhile (\<lambda>c. c \<noteq> CHR ''.'') (x @ y) = x" by simp
  qed
  have "a = takeWhile (\<lambda>c. c \<noteq> CHR ''.'') (a @ s)" using tw[OF assms(1)] suffix_shape[OF assms(3)] by simp
  also have "\<dots> = takeWhile (\<lambda>c. c \<noteq> CHR ''.'') (b @ s')" using assms(5) by simp
  also have "\<dots> = b" using tw[OF assms(2)] suffix_shape[OF assms(4)] by simp
  finally show ?thesis .
qed

lemma replaceVariants_keeps_token:
  assumes "isIdentifier key" "isIdentifier var" "var \<noteq> key" "s \<in> set styleSuffixes"
    and "sublist (''{{'' @ var @ s @ ''}}'') t"
  shows "sublist (''{{'' @ var @ s @ ''}}'') (replaceVariants (key, v) t)"
proof -
  have bk: "\<And>s'. s' \<in> set styleSuffixes \<Longrightarrow> braceFree (key @ s')"
    using assms(1) suffix_shape by (auto simp: isIdentifier_def braceFree_def)
  have bv: "braceFree (var @ s)"
    using assms(2,4) suffix_shape by (auto simp: isIdentifier_def braceFree_def)
  have ne: "\<And>s'. s' \<in> set styleSuffixes \<Longrightarrow> key @ s' \<noteq> var @ s"
    using identifier_suffix_inj[OF assms(1,2) _ assms(4)] assms(3) by blast
  have step: "\<And>s' x. s' \<in> set styleSuffixes \<Longrightarrow> sublist (''{{'' @ (var @ s) @ ''}}'') x
         \<Longrightarrow> sublist (''{{'' @ (var @ s) @ ''}}'') (replaceName x (''{{'' @ (key @ s') @ ''}}'') v)"
    using replaceName_keeps_token[OF bk bv ne] by blast
  have mem: "[] \<in> set styleSuffixes" "''.lowerCase'' \<in> set styleSuffixes"
    "''.upperCase'' \<in> set styleSuffixes" "''.snakeCase'' \<in> set styleSuffixes"
    "''.pascalCase'' \<in> set styleSuffixes" "''.camelCase'' \<in> set styleSuffixes"
    by (simp_all add: styleSuffixes_def)
  have t0: "sublist (''{{'' @ (var @ s) @ ''}}'') t" using assms(5) by simp
  note t1 = step[OF mem(1) t0]
  note t2 = step[OF mem(2) t1]
  note t3 = step[OF mem(3) t2]
  note t4 = step[OF mem(4) t3]
  note t5 = step[OF mem(5) t4]
  note t6 = step[OF mem(6) t5]
  show ?thesis using t6 by (simp add: replaceVariants_def Let_def)
qed

lemma unbound_gen:
  assumes "isIdentifier var" "s \<in> set styleSuffixes"
  shows "\<forall>kv \<in> set placeholders. isIdentifier (fst kv) \<Longrightarrow> var \<notin> fst ` set placeholders
    \<Longrightarrow> sublist (''{{'' @ var @ s @ ''}}'') content
    \<Longrightarrow> sublist (''{{'' @ var @ s @ ''}}'') (fold replaceVariants placeholders content)"
proof (induction placeholders arbitrary: content)
  case Nil
  then show ?case by simp
next
  case (Cons kv placeholders)
  obtain key v where kv: "kv = (key, v)" by (cases kv)
  have "sublist (''{{'' @ var @ s @ ''}}'') (replaceVariants (key, v) content)"
    using replaceVariants_keeps_token[OF _ assms(1) _ assms(2) Cons.prems(3), of key v] Cons.prems(1,2) kv
    by auto
  then show ?case using Cons.IH[of "replaceVariants (key, v) content"] Cons.prems(1,2) kv by simp
qed



lemma replaceName_unchanged:
  assumes "searchTerm \<noteq> []" "\<not> sublist searchTerm t"
  shows "replaceName t searchTerm v = t"
proof -
  have step: "\<And>r. replaceAll t searchTerm r = t"
    unfolding replaceAll_def by (rule scan_unchanged[OF assms])
  show ?thesis unfolding replaceName_def Let_def by (simp add: step)
qed

lemma rewrite_unchanged:
  "\<forall>rule \<in> set rules. fst rule \<noteq> [] \<and> \<not> sublist (fst rule) t \<Longrightarrow> rewrite t rules = t"
proof (induction rules)
  case Nil
  then show ?case by (simp add: rewrite_def)
next
  case (Cons rule rules)
  have "replaceName t (fst rule) (snd rule) = t"
    using Cons.prems by (simp add: replaceName_unchanged)
  moreover have "rewrite t rules = t" using Cons by simp
  ultimately show ?case by (simp add: rewrite_def)
qed

lemma rewrite_append: "rewrite t (xs @ ys) = rewrite (rewrite t xs) ys"
  by (simp add: rewrite_def)

lemma replaceVariants_rewrite: "replaceVariants kv t = rewrite t (variantRules kv)"
  by (simp add: replaceVariants_def variantRules_def rewrite_def Let_def)

lemma replacePlaceholdersInContent_rewrite:
  "replacePlaceholdersInContent content placeholders
   = rewrite content (concat (map variantRules placeholders))"
proof -
  have "fold replaceVariants placeholders content
        = rewrite content (concat (map variantRules placeholders))"
  proof (induction placeholders arbitrary: content)
    case Nil
    then show ?case by (simp add: rewrite_def)
  next
    case (Cons kv placeholders)
    then show ?case by (simp add: replaceVariants_rewrite rewrite_append)
  qed
  then show ?thesis by (simp add: replacePlaceholdersInContent_def)
qed


lemma splitWords_nonempty: "w \<in> set (splitWords cur s) \<Longrightarrow> w \<noteq> []"
  by (induction cur s rule: splitWords.induct) (auto split: if_splits)

lemma toLower_toUpper: "toLowerChar (toUpperChar c) = toLowerChar c"
proof (cases "isLower c")
  case True
  define n where "n = (of_char c :: nat)"
  have r: "97 \<le> n" "n \<le> 122" using True by (simp_all add: isLower_def Let_def n_def)
  have nu: "\<not> isUpper c" using r by (simp add: isUpper_def Let_def n_def[symmetric])
  have up: "toUpperChar c = char_of (n - 32)" using True by (simp add: toUpperChar_def n_def)
  have m: "(n - 32) mod 256 = n - 32" using r by simp
  have oc: "(of_char (char_of (n - 32)) :: nat) = n - 32" using m by simp
  have "65 \<le> n - 32" "n - 32 \<le> 90" using r by arith+
  then have iu: "isUpper (char_of (n - 32))" using oc by (simp add: isUpper_def Let_def)
  have "n - 32 + 32 = n" using r by arith
  then have "toLowerChar (char_of (n - 32)) = char_of n"
    using iu oc by (simp add: toLowerChar_def)
  also have "char_of n = c" by (simp add: n_def)
  finally show ?thesis using up nu by (simp add: toLowerChar_def)
next
  case False
  then show ?thesis by (simp add: toUpperChar_def)
qed

lemma processTemplate_shown:
  "processTemplate writable tf rf cf pn ft f \<sigma> = Inr \<sigma>' \<Longrightarrow> shown \<sigma>' = shown \<sigma>"
  by (auto simp: processTemplate_def Let_def writeFileExtPromise_def split: sum.splits if_splits)

lemma copyLoop_count:
  "snd (copyLoop writable tf rf cf pn ft files (\<sigma>, n))
     + length (shown (fst (copyLoop writable tf rf cf pn ft files (\<sigma>, n))))
   = n + length (shown \<sigma>) + length files"
proof (induction files arbitrary: \<sigma> n)
  case Nil
  then show ?case by simp
next
  case (Cons f files)
  show ?case
  proof (cases "processTemplate writable tf rf cf pn ft f \<sigma>")
    case (Inl e)
    then show ?thesis
      using Cons[of "\<sigma>\<lparr>shown := shown \<sigma> @ [''Error processing template: '' @ f]\<rparr>" n]
      by simp
  next
    case (Inr \<sigma>')
    then show ?thesis using Cons[of \<sigma>' "n + 1"] processTemplate_shown[OF Inr] by simp
  qed
qed



section \<open>Verified properties\<close>

subsection \<open>Rewriting an import line\<close>

text \<open>
  C2. With the bindings feature_name = authentication, usecase_name = login_user and
  package_name = my_app, the content-rewriting routine turns the import line of the
  use-case template into the import of
  \<^verbatim>\<open>package:my_app/src/authentication/domain/usecases/login_user_usecase.dart\<close>. The
  use-case command binds custom_folder and root_folder as well; their tokens do not
  occur in the line, so their values do not matter.
\<close>

theorem rewrite_import_line:
  "replacePlaceholdersInContent
     ''import 'package:{{package_name}}/src/{{feature_name.snakeCase}}/domain/usecases/{{usecase_name.snakeCase}}_usecase.dart';''
     [(''feature_name'', ''authentication''), (''usecase_name'', ''login_user''),
      (''package_name'', ''my_app'')]
   = ''import 'package:my_app/src/authentication/domain/usecases/login_user_usecase.dart';''
   \<and> replacePlaceholdersInContent
     ''import 'package:{{package_name}}/src/{{feature_name.snakeCase}}/domain/usecases/{{usecase_name.snakeCase}}_usecase.dart';''
     [(''feature_name'', ''authentication''), (''usecase_name'', ''login_user''),
      (''package_name'', ''my_app''), (''custom_folder'', clickedFolder),
      (''root_folder'', rootFolder)]
   = ''import 'package:my_app/src/authentication/domain/usecases/login_user_usecase.dart';''"
proof -
  let ?line = "''import 'package:{{package_name}}/src/{{feature_name.snakeCase}}/domain/usecases/{{usecase_name.snakeCase}}_usecase.dart';''"
  let ?out = "''import 'package:my_app/src/authentication/domain/usecases/login_user_usecase.dart';''"
  let ?three = "[(''feature_name'', ''authentication''), (''usecase_name'', ''login_user''),
      (''package_name'', ''my_app'')]"
  have three: "fold replaceVariants ?three ?line = ?out"
    by code_simp
  have none: "\<And>key v. key \<in> {''custom_folder'', ''root_folder''} \<Longrightarrow> replaceVariants (key, v) ?out = ?out"
  proof -
    fix key :: string and v :: string
    assume "key \<in> {''custom_folder'', ''root_folder''}"
    then have "\<forall>rule \<in> set (variantRules (key, v)). fst rule \<noteq> [] \<and> \<not> sublist (fst rule) ?out"
      by (auto simp: variantRules_def sublist_code)
    then show "replaceVariants (key, v) ?out = ?out"
      by (simp only: replaceVariants_rewrite rewrite_unchanged)
  qed
  have five: "fold replaceVariants
                (?three @ [(''custom_folder'', clickedFolder), (''root_folder'', rootFolder)]) ?line
              = ?out"
    unfolding fold_append comp_def three by (simp add: none)
  show ?thesis using three five by (simp only: replacePlaceholdersInContent_def append.simps simp_thms)
qed

subsection \<open>Sequential application of the rules\<close>

text \<open>
  Counterexample to C1 as stated. The value bound to custom_folder holds the token of
  package_name. The rules of package_name run after those of custom_folder and rewrite
  the text that was just put in, so the token does not survive.
\<close>

theorem rewrite_inserted_token_replaced:
  "replacePlaceholdersInContent ''{{custom_folder}}''
     [(''custom_folder'', ''{{package_name}}''), (''package_name'', ''my_app'')] = ''my_app''"
  by code_simp

text \<open>
  C1, amended. The rules are applied one after the other, each to the whole text that
  the rules before it produced, so a rule scans what earlier rules put in. When every
  \<^verbatim>\<open>{{\<close> of the text opens a placeholder, every token is a placeholder and every rendered
  replacement has no brace and no dollar sign, the result is the simultaneous
  substitution: each placeholder occurrence of the text is replaced once, by the rendered
  replacement of the first rule for its token, put in as it stands.
\<close>

theorem rewrite_sequential:
  "rewrite text (rules @ rules') = rewrite (rewrite text rules) rules'
   \<and> (placeholdersClosed text
        \<and> (\<forall>rule \<in> set rules. isToken (fst rule)
               \<and> plainText (renderedReplacement (fst rule) (snd rule)))
      \<longrightarrow> rewrite text rules = substitute (ruleMap rules) text)"
proof (intro conjI impI)
  show "rewrite text (rules @ rules') = rewrite (rewrite text rules) rules'"
    by (simp add: rewrite_def)
next
  assume h: "placeholdersClosed text
        \<and> (\<forall>rule \<in> set rules. isToken (fst rule)
               \<and> plainText (renderedReplacement (fst rule) (snd rule)))"
  then show "rewrite text rules = substitute (ruleMap rules) text"
    using rewrite_substitute[of "text" "rules"] by blast
qed

theorem rewrite_sequential_witness:
  "rewrite ''class {{usecase_name.pascalCase}} { {{package_name}} }''
     [(''{{usecase_name.pascalCase}}'', ''login_user''), (''{{package_name}}'', ''my_app'')]
   = substitute
       (ruleMap [(''{{usecase_name.pascalCase}}'', ''login_user''), (''{{package_name}}'', ''my_app'')])
       ''class {{usecase_name.pascalCase}} { {{package_name}} }''
   \<and> substitute
       (ruleMap [(''{{usecase_name.pascalCase}}'', ''login_user''), (''{{package_name}}'', ''my_app'')])
       ''class {{usecase_name.pascalCase}} { {{package_name}} }''
     = ''class LoginUser { my_app }''"
proof -
  let ?text = "''class {{usecase_name.pascalCase}} { {{package_name}} }''"
  let ?rules = "[(''{{usecase_name.pascalCase}}'', ''login_user''), (''{{package_name}}'', ''my_app'')]"
  have closed: "placeholdersClosed ?text" by code_simp
  have rules: "\<forall>rule \<in> set ?rules. isToken (fst rule)
                 \<and> plainText (renderedReplacement (fst rule) (snd rule))"
    by code_simp
  from rewrite_sequential[of ?text ?rules "[]"]
  have "placeholdersClosed ?text
        \<and> (\<forall>rule \<in> set ?rules. isToken (fst rule)
               \<and> plainText (renderedReplacement (fst rule) (snd rule)))
      \<longrightarrow> rewrite ?text ?rules = substitute (ruleMap ?rules) ?text"
    by (rule conjunct2)
  with closed rules have "rewrite ?text ?rules = substitute (ruleMap ?rules) ?text" by blast
  moreover have "substitute (ruleMap ?rules) ?text = ''class LoginUser { my_app }''"
    by code_simp
  ultimately show ?thesis by (rule conjI)
qed

subsection \<open>Order of the rules\<close>

text \<open>
  Counterexample to C5 as stated. Neither token is a substring of the other, and yet
  the two orders of the rules give different texts, because the value of the first
  rule holds the token of the second.
\<close>

theorem rewrite_order_matters:
  "\<not> sublist ''{{custom_folder}}'' ''{{package_name}}''
   \<and> \<not> sublist ''{{package_name}}'' ''{{custom_folder}}''
   \<and> rewrite ''{{custom_folder}}''
         [(''{{custom_folder}}'', ''{{package_name}}''), (''{{package_name}}'', ''my_app'')]
       = ''my_app''
   \<and> rewrite ''{{custom_folder}}''
         [(''{{package_name}}'', ''my_app''), (''{{custom_folder}}'', ''{{package_name}}'')]
       = ''{{package_name}}''"
  by code_simp

text \<open>
  C5, amended. For a text in which every \<^verbatim>\<open>{{\<close> opens a placeholder, and rules whose
  tokens are pairwise distinct placeholders and whose rendered replacements have no
  brace and no dollar sign, every permutation of the rules yields the same text.
\<close>

theorem rewrite_order_independent:
  assumes "placeholdersClosed text"
    and "\<forall>rule \<in> set rules. isToken (fst rule)
           \<and> plainText (renderedReplacement (fst rule) (snd rule))"
    and "distinct (map fst rules)" and "mset rules' = mset rules"
  shows "rewrite text rules' = rewrite text rules"
proof -
  have se: "set rules' = set rules" using assms(4) by (metis set_mset_mset)
  have "rewrite text rules' = substitute (ruleMap rules') text"
    using rewrite_substitute[OF assms(1)] assms(2) se by simp
  moreover have "rewrite text rules = substitute (ruleMap rules) text"
    by (rule rewrite_substitute[OF assms(1,2)])
  moreover have "ruleMap rules' = ruleMap rules"
    using ruleMap_permute[OF _ assms(3,4)] assms(2) by simp
  ultimately show ?thesis by simp
qed

theorem rewrite_order_independent_witness:
  "rewrite ''class {{usecase_name.pascalCase}} { {{package_name}} }''
     [(''{{package_name}}'', ''my_app''), (''{{usecase_name.pascalCase}}'', ''login_user'')]
   = rewrite ''class {{usecase_name.pascalCase}} { {{package_name}} }''
     [(''{{usecase_name.pascalCase}}'', ''login_user''), (''{{package_name}}'', ''my_app'')]"
proof -
  let ?text = "''class {{usecase_name.pascalCase}} { {{package_name}} }''"
  let ?rules = "[(''{{usecase_name.pascalCase}}'', ''login_user''), (''{{package_name}}'', ''my_app'')]"
  let ?rules' = "[(''{{package_name}}'', ''my_app''), (''{{usecase_name.pascalCase}}'', ''login_user'')]"
  have closed: "placeholdersClosed ?text" by code_simp
  have rules: "\<forall>rule \<in> set ?rules. isToken (fst rule)
                 \<and> plainText (renderedReplacement (fst rule) (snd rule))"
    by code_simp
  have dist: "distinct (map fst ?rules)" by simp
  have perm: "mset ?rules' = mset ?rules" by simp
  show ?thesis by (rule rewrite_order_independent[OF closed rules dist perm])
qed

subsection \<open>Style labels inside a variable name\<close>



subsection \<open>Tokens without a binding\<close>

text \<open>
  C4. A token \<^verbatim>\<open>{{var}}\<close> or \<^verbatim>\<open>{{var.style}}\<close> whose variable is not a key of the
  placeholders is still in the output of the content-rewriting routine, character for
  character. The routine returns a string in every case; it has no error result.
\<close>

theorem unbound_token_left:
  assumes "isIdentifier var" and "\<forall>kv \<in> set placeholders. isIdentifier (fst kv)"
    and "var \<notin> fst ` set placeholders" and "s \<in> set styleSuffixes"
    and "sublist (''{{'' @ var @ s @ ''}}'') content"
  shows "sublist (''{{'' @ var @ s @ ''}}'') (replacePlaceholdersInContent content placeholders)"
  unfolding replacePlaceholdersInContent_def
  by (rule unbound_gen[OF assms(1,4,2,3,5)])

theorem unbound_token_left_witness:
  "sublist ''{{entity_name.snakeCase}}''
     (replacePlaceholdersInContent ''import '{{package_name}}/{{entity_name.snakeCase}}.dart';''
        [(''custom_folder'', ''lib/src''), (''package_name'', ''my_app'')])"
proof -
  have v: "isIdentifier ''entity_name''" by code_simp
  have k: "\<forall>kv \<in> set [(''custom_folder'', ''lib/src''), (''package_name'', ''my_app'')]. isIdentifier (fst kv)"
    by code_simp
  have n: "''entity_name'' \<notin> fst ` set [(''custom_folder'', ''lib/src''), (''package_name'', ''my_app'')]"
    by simp
  have s: "''.snakeCase'' \<in> set styleSuffixes" by (simp add: styleSuffixes_def)
  have c: "sublist (''{{'' @ ''entity_name'' @ ''.snakeCase'' @ ''}}'') ''import '{{package_name}}/{{entity_name.snakeCase}}.dart';''"
    by code_simp
  from unbound_token_left[OF v k n s c] show ?thesis by simp
qed

subsection \<open>The hard-coded package reference\<close>



subsection \<open>Paths of the use-case templates\<close>



subsection \<open>Camel case and Pascal case\<close>

text \<open>
  C6. The camel case of a string is its Pascal case with the first character lowercased
  (\<open>uncapitalize\<close> lowercases the first character of a string).
\<close>

theorem camelCase_is_pascalCase_uncapitalized:
  "camelCase s = uncapitalize (pascalCase s)"
proof (cases "splitWords [] s")
  case Nil
  then show ?thesis by (simp add: camelCase_def pascalCase_def)
next
  case (Cons w ws)
  then have "w \<noteq> []" using splitWords_nonempty[of w "[]" s] by simp
  then obtain c w' where w: "w = c # w'" by (cases w) auto
  show ?thesis using Cons w by (simp add: camelCase_def pascalCase_def toLower_toUpper)
qed

subsection \<open>Best-effort copying\<close>

text \<open>
  C7. In the copy loop every template is either written and counted or reported and
  not counted: the count and the number of messages shown grow together by the number
  of templates. When a template fails, its message is shown, the count stays, and the
  loop goes on with the remaining templates; when it succeeds the count grows by one.
\<close>

theorem copy_continues_after_failure:
  "snd (copyLoop writable tf rf cf pn ft files (\<sigma>, n))
     + length (shown (fst (copyLoop writable tf rf cf pn ft files (\<sigma>, n))))
   = n + length (shown \<sigma>) + length files
   \<and> (processTemplate writable tf rf cf pn ft f \<sigma> = Inl e \<longrightarrow>
        copyLoop writable tf rf cf pn ft (f # rest) (\<sigma>, n)
        = copyLoop writable tf rf cf pn ft rest
            (\<sigma>\<lparr>shown := shown \<sigma> @ [''Error processing template: '' @ f]\<rparr>, n))
   \<and> (processTemplate writable tf rf cf pn ft f \<sigma> = Inr \<sigma>' \<longrightarrow>
        copyLoop writable tf rf cf pn ft (f # rest) (\<sigma>, n)
        = copyLoop writable tf rf cf pn ft rest (\<sigma>', n + 1))"
  using copyLoop_count by simp

theorem copy_continues_after_failure_witness:
  "snd (copyLoop demoWritable ''r/t/core'' ''r'' ''r/lib'' ''my_app'' ''core''
          [''r/t/core/a.template'', ''r/t/core/api/b.template''] (demoState, 0)) = 1
   \<and> shown (fst (copyLoop demoWritable ''r/t/core'' ''r'' ''r/lib'' ''my_app'' ''core''
          [''r/t/core/a.template'', ''r/t/core/api/b.template''] (demoState, 0)))
       = [''Error processing template: r/t/core/a.template'']
   \<and> contents (fst (copyLoop demoWritable ''r/t/core'' ''r'' ''r/lib'' ''my_app'' ''core''
          [''r/t/core/a.template'', ''r/t/core/api/b.template''] (demoState, 0)))
         ''r/lib/core/api/b.dart''
       = Some ''// my_app''"
proof -
  let ?failed = "demoState\<lparr>shown := shown demoState @ [''Error processing template: '' @ ''r/t/core/a.template'']\<rparr>"
  have "isl (processTemplate demoWritable ''r/t/core'' ''r'' ''r/lib'' ''my_app'' ''core''
               ''r/t/core/a.template'' demoState)"
    by code_simp
  then obtain e where e: "processTemplate demoWritable ''r/t/core'' ''r'' ''r/lib'' ''my_app'' ''core''
               ''r/t/core/a.template'' demoState = Inl e"
    by (cases "processTemplate demoWritable ''r/t/core'' ''r'' ''r/lib'' ''my_app'' ''core''
               ''r/t/core/a.template'' demoState") auto
  have step: "copyLoop demoWritable ''r/t/core'' ''r'' ''r/lib'' ''my_app'' ''core''
          [''r/t/core/a.template'', ''r/t/core/api/b.template''] (demoState, 0)
        = copyLoop demoWritable ''r/t/core'' ''r'' ''r/lib'' ''my_app'' ''core''
          [''r/t/core/api/b.template''] (?failed, 0)"
    using copy_continues_after_failure[of demoWritable "''r/t/core''" "''r''" "''r/lib''" "''my_app''"
        "''core''" "[]" demoState 0 "''r/t/core/a.template''" e "[''r/t/core/api/b.template'']"] e
    by blast
  have r: "snd (copyLoop demoWritable ''r/t/core'' ''r'' ''r/lib'' ''my_app'' ''core''
          [''r/t/core/api/b.template''] (?failed, 0)) = 1
   \<and> shown (fst (copyLoop demoWritable ''r/t/core'' ''r'' ''r/lib'' ''my_app'' ''core''
          [''r/t/core/api/b.template''] (?failed, 0)))
       = [''Error processing template: r/t/core/a.template'']
   \<and> contents (fst (copyLoop demoWritable ''r/t/core'' ''r'' ''r/lib'' ''my_app'' ''core''
          [''r/t/core/api/b.template''] (?failed, 0)))
         ''r/lib/core/api/b.dart''
       = Some ''// my_app''"
    by code_simp
  show ?thesis unfolding step by (rule r)
qed

subsection \<open>Walking the template tree\<close>


end
